theory Spec2Isabelle
  imports Main "HOL-Library.Word" "HOL-Library.Multiset"
begin

unbundle bit_operations_syntax

section \<open>In-place bit-reversal reordering of a complex sample buffer (src/src/fft.cc)\<close>

subsection \<open>Machine integers and undefined behaviour\<close>

text \<open>
  The routine computes with C++ \<open>int\<close> (taken as 32-bit two's complement) and reads and
  writes the caller's buffer through pointers.  An operation whose result the language
  leaves undefined is a value of the model: a shift by a count outside \<open>0..31\<close>, a signed
  addition or subtraction whose result is not representable, and an access outside the
  buffer.  A computation that does not return is \<open>None\<close>.
\<close>

datatype error = ShiftOutOfRange | SignedOverflow | OutOfBounds

type_synonym 'a result = "error + 'a"

type_synonym int16 = "16 word"
type_synonym int32 = "32 word"

definition INT_MIN :: int where
  "INT_MIN = - (2 ^ 31)"

definition INT_MAX :: int where
  "INT_MAX = 2 ^ 31 - 1"

definition int_result :: "int \<Rightarrow> int result" where
  "int_result v = (if INT_MIN \<le> v \<and> v \<le> INT_MAX then Inr v else Inl SignedOverflow)"

definition c_add :: "int \<Rightarrow> int \<Rightarrow> int result" where
  "c_add a b = int_result (a + b)"

definition c_sub :: "int \<Rightarrow> int \<Rightarrow> int result" where
  "c_sub a b = int_result (a - b)"

text \<open>
  \<open>1 << stages\<close>: undefined for a count outside \<open>0..31\<close>; at 31 the value \<open>2 ^ 31\<close> is
  representable in the unsigned type only and converts to \<open>INT_MIN\<close> (in C the shift
  itself is already undefined there; the next statement, \<open>length - 1\<close>, overflows in
  either reading).
\<close>

definition shl_one :: "int \<Rightarrow> int result" where
  "shl_one n =
     (if 0 \<le> n \<and> n < 32 then Inr (signed_take_bit 31 (push_bit (nat n) 1))
      else Inl ShiftOutOfRange)"

subsection \<open>The buffer: 16-bit lanes read and written as 32-bit samples\<close>

text \<open>
  \<open>complex_data\<close> points to \<open>int16_t\<close> values, real and imaginary part interleaved.
  The routine accesses it as \<open>int32_t* complex_data_ptr\<close>: element \<open>i\<close> of that view
  covers the lanes \<open>2 * i\<close> (low half) and \<open>2 * i + 1\<close> (high half).
\<close>

definition pack32 :: "int16 \<Rightarrow> int16 \<Rightarrow> int32" where
  "pack32 lo hi = ucast lo OR push_bit 16 (ucast hi)"

definition low16 :: "int32 \<Rightarrow> int16" where
  "low16 w = ucast w"

definition high16 :: "int32 \<Rightarrow> int16" where
  "high16 w = ucast (drop_bit 16 w)"

definition in_bounds :: "int16 list \<Rightarrow> int \<Rightarrow> bool" where
  "in_bounds d i \<longleftrightarrow> 0 \<le> i \<and> 2 * nat i + 1 < length d"

definition load32 :: "int16 list \<Rightarrow> int \<Rightarrow> int32 result" where
  "load32 d i =
     (if in_bounds d i then Inr (pack32 (d ! (2 * nat i)) (d ! (2 * nat i + 1)))
      else Inl OutOfBounds)"

definition store32 :: "int16 list \<Rightarrow> int \<Rightarrow> int32 \<Rightarrow> int16 list result" where
  "store32 d i w =
     (if in_bounds d i then Inr (d[2 * nat i := low16 w, 2 * nat i + 1 := high16 w])
      else Inl OutOfBounds)"

subsection \<open>The routine\<close>

text \<open>
  The source's variables \<open>length\<close>, \<open>max\<close>, \<open>bit\<close> and \<open>mask\<close> are written \<open>len\<close>, \<open>mx\<close>,
  \<open>b\<close> and \<open>m\<close> below, as the library uses those names.

  The \<open>do ... while\<close> search: \<open>bit\<close> is halved (\<open>bit >>= 1\<close>), then tested against
  \<open>max - index_reversed\<close>, and halved again while it is larger.  Nothing in the loop
  itself bounds the number of rounds (with \<open>max - index_reversed\<close> negative the test
  stays true once \<open>bit\<close> has reached 0), so the search is a partial function.
\<close>

partial_function (option) find_bit :: "int \<Rightarrow> int \<Rightarrow> int \<Rightarrow> int result option" where
  "find_bit b mx ir =
     (let b' = drop_bit 1 b in
      case c_sub mx ir of
        Inl e \<Rightarrow> Some (Inl e)
      | Inr d \<Rightarrow> if b' > d then find_bit b' mx ir else Some (Inr b'))"

declare find_bit.simps [code]

record loop_state =
  index :: int
  index_reversed :: int
  complex_data :: "int16 list"

text \<open>The swap of the samples at \<open>index\<close> and \<open>index_reversed\<close> through \<open>temp\<close>.\<close>

definition swap_samples :: "int16 list \<Rightarrow> int \<Rightarrow> int \<Rightarrow> int16 list result" where
  "swap_samples d i r =
     (case load32 d i of
        Inl e \<Rightarrow> Inl e
      | Inr temp \<Rightarrow>
         (case load32 d r of
            Inl e \<Rightarrow> Inl e
          | Inr v \<Rightarrow>
             (case store32 d i v of
                Inl e \<Rightarrow> Inl e
              | Inr d1 \<Rightarrow> store32 d1 r temp)))"

text \<open>
  One pass through the body of the \<open>for\<close> loop followed by \<open>++index\<close>;
  \<open>continue\<close> skips the swap only.
\<close>

definition loop_body :: "int \<Rightarrow> int \<Rightarrow> loop_state \<Rightarrow> loop_state result option" where
  "loop_body len mx s =
     (case find_bit len mx (index_reversed s) of
        None \<Rightarrow> None
      | Some (Inl e) \<Rightarrow> Some (Inl e)
      | Some (Inr b) \<Rightarrow>
         (case c_sub b 1 of
            Inl e \<Rightarrow> Some (Inl e)
          | Inr m \<Rightarrow>
             (case c_add (index_reversed s AND m) b of
                Inl e \<Rightarrow> Some (Inl e)
              | Inr ir \<Rightarrow>
                 (case (if ir \<le> index s then Inr (complex_data s)
                        else swap_samples (complex_data s) (index s) ir) of
                    Inl e \<Rightarrow> Some (Inl e)
                  | Inr d \<Rightarrow>
                     (case c_add (index s) 1 of
                        Inl e \<Rightarrow> Some (Inl e)
                      | Inr i \<Rightarrow>
                         Some (Inr \<lparr>index = i, index_reversed = ir, complex_data = d\<rparr>))))))"

partial_function (option) for_loop :: "int \<Rightarrow> int \<Rightarrow> loop_state \<Rightarrow> loop_state result option" where
  "for_loop len mx s =
     (if index s \<le> mx then
        (case loop_body len mx s of
           None \<Rightarrow> None
         | Some (Inl e) \<Rightarrow> Some (Inl e)
         | Some (Inr s') \<Rightarrow> for_loop len mx s')
      else Some (Inr s))"

declare for_loop.simps [code]

text \<open>
  The state in which the loop is entered: \<open>index_reversed = 0\<close> from its declaration,
  \<open>index = 1\<close> from the initialisation of the \<open>for\<close> statement.
\<close>

definition entry_state :: "int16 list \<Rightarrow> loop_state" where
  "entry_state d = \<lparr>index = 1, index_reversed = 0, complex_data = d\<rparr>"

text \<open>
  The routine: \<open>length = 1 << stages\<close>, \<open>max = length - 1\<close>, then the loop; what the
  caller sees is the buffer the loop leaves.
\<close>

definition WebRtcSpl_ComplexBitReverse :: "int16 list \<Rightarrow> int \<Rightarrow> int16 list result option" where
  "WebRtcSpl_ComplexBitReverse d stages =
     (case shl_one stages of
        Inl e \<Rightarrow> Some (Inl e)
      | Inr len \<Rightarrow>
         (case c_sub len 1 of
            Inl e \<Rightarrow> Some (Inl e)
          | Inr mx \<Rightarrow>
             (case for_loop len mx (entry_state d) of
                None \<Rightarrow> None
              | Some (Inl e) \<Rightarrow> Some (Inl e)
              | Some (Inr s) \<Rightarrow> Some (Inr (complex_data s)))))"

subsection \<open>Loop iterations\<close>

text \<open>
  \<open>iterates len mx s s'\<close>: the loop, standing at its test in state \<open>s\<close>, stands at its
  test in state \<open>s'\<close> after some number of completed passes through the body.
\<close>

inductive iterates :: "int \<Rightarrow> int \<Rightarrow> loop_state \<Rightarrow> loop_state \<Rightarrow> bool"
  for len :: int and mx :: int where
  start: "iterates len mx s s"
| pass: "index s \<le> mx \<Longrightarrow> loop_body len mx s = Some (Inr s') \<Longrightarrow> iterates len mx s' s'' \<Longrightarrow>
         iterates len mx s s''"

code_pred iterates .

subsection \<open>The specification's bit reversal\<close>

text \<open>
  \<open>reverse_bits i n\<close> follows the specification: the number whose \<open>n\<close>-bit binary
  representation is that of \<open>i\<close> read backwards.  Bit 0 of \<open>i\<close> becomes bit \<open>n - 1\<close>, and
  the remaining bits of \<open>i\<close> are reversed over \<open>n - 1\<close> bits.
\<close>

fun reverse_bits :: "nat \<Rightarrow> nat \<Rightarrow> nat" where
  "reverse_bits i 0 = 0"
| "reverse_bits i (Suc n) = (i mod 2) * 2 ^ n + reverse_bits (i div 2) n"

text \<open>The complex sample at position \<open>i\<close>: its real and its imaginary lane.\<close>

definition sample :: "int16 list \<Rightarrow> nat \<Rightarrow> int16 \<times> int16" where
  "sample d i = (d ! (2 * i), d ! (2 * i + 1))"

text \<open>The first \<open>m\<close> complex samples of a buffer, in index order.\<close>

definition samples :: "int16 list \<Rightarrow> nat \<Rightarrow> (int16 \<times> int16) list" where
  "samples d m = map (sample d) [0..<m]"

subsection \<open>The loop invariant\<close>

text \<open>
  After the passes for the indices \<open>1..k\<close>, the sample at \<open>i\<close> has been exchanged with its
  mirror exactly when the two differ and the smaller of them is at most \<open>k\<close>;
  \<open>source_lane n k p\<close> is the lane of the original buffer whose content then sits in
  lane \<open>p\<close>.
\<close>

definition moved :: "nat \<Rightarrow> nat \<Rightarrow> nat \<Rightarrow> bool" where
  "moved n k i \<longleftrightarrow> i < 2 ^ n \<and> reverse_bits i n \<noteq> i \<and> min i (reverse_bits i n) \<le> k"

definition source_lane :: "nat \<Rightarrow> nat \<Rightarrow> nat \<Rightarrow> nat" where
  "source_lane n k p =
     (if moved n k (p div 2) then 2 * reverse_bits (p div 2) n + p mod 2 else p)"

definition loop_inv :: "nat \<Rightarrow> int16 list \<Rightarrow> nat \<Rightarrow> loop_state \<Rightarrow> bool" where
  "loop_inv n d0 k s \<longleftrightarrow>
     index s = int k + 1 \<and>
     index_reversed s = int (reverse_bits k n) \<and>
     length (complex_data s) = length d0 \<and>
     (\<forall>p<length d0. complex_data s ! p = d0 ! source_lane n k p)"

section \<open>Properties\<close>

subsection \<open>Packing two lanes into a 32-bit sample\<close>

lemma low16_pack32: "low16 (pack32 lo hi) = lo"
  unfolding low16_def pack32_def
  by (rule bit_word_eqI) (auto simp add: bit_simps dest: bit_imp_le_length)

lemma high16_pack32: "high16 (pack32 lo hi) = hi"
  unfolding high16_def pack32_def
  by (rule bit_word_eqI) (auto simp add: bit_simps dest: bit_imp_le_length)

lemma pack32_eq_iff: "pack32 a b = pack32 c d \<longleftrightarrow> a = c \<and> b = d"
  by (metis low16_pack32 high16_pack32)

subsection \<open>Checked arithmetic inside the representable range\<close>

lemma c_sub_Inr: "INT_MIN \<le> a - b \<Longrightarrow> a - b \<le> INT_MAX \<Longrightarrow> c_sub a b = Inr (a - b)"
  by (simp add: c_sub_def int_result_def)

lemma c_add_Inr: "INT_MIN \<le> a + b \<Longrightarrow> a + b \<le> INT_MAX \<Longrightarrow> c_add a b = Inr (a + b)"
  by (simp add: c_add_def int_result_def)

subsection \<open>Bit reversal\<close>

lemma reverse_bits_less: "reverse_bits i n < 2 ^ n"
proof (induction n arbitrary: i)
  case 0
  show ?case by simp
next
  case (Suc n)
  have "i mod 2 = 0 \<or> i mod 2 = 1" by presburger
  moreover have "reverse_bits (i div 2) n < 2 ^ n" by (rule Suc.IH)
  ultimately show ?case by auto
qed

lemma reverse_bits_bit:
  "k < n \<Longrightarrow> bit (reverse_bits i n) k \<longleftrightarrow> bit i (n - 1 - k)"
proof (induction n arbitrary: i k)
  case 0
  then show ?case by simp
next
  case (Suc n)
  show ?case
  proof (cases "k = n")
    case True
    have "reverse_bits (i div 2) n < 2 ^ n" by (rule reverse_bits_less)
    then have "reverse_bits i (Suc n) div 2 ^ n = i mod 2" by simp
    then show ?thesis using True by (simp add: bit_iff_odd mod_2_eq_odd)
  next
    case False
    with Suc.prems have kn: "k < n" by simp
    have "take_bit n (reverse_bits i (Suc n)) = take_bit n (reverse_bits (i div 2) n)"
      by (simp add: take_bit_eq_mod)
    then have "bit (reverse_bits i (Suc n)) k \<longleftrightarrow> bit (reverse_bits (i div 2) n) k"
      using kn by (metis bit_take_bit_iff)
    also have "\<dots> \<longleftrightarrow> bit (i div 2) (n - 1 - k)" using kn by (rule Suc.IH)
    also have "\<dots> \<longleftrightarrow> bit i (Suc n - 1 - k)" using kn 
      by (simp add: bit_Suc [symmetric] Suc_diff_Suc)
    finally show ?thesis .
  qed
qed

lemma reverse_bits_top:
  "x < 2 ^ n \<Longrightarrow> b < 2 \<Longrightarrow> reverse_bits (x + b * 2 ^ n) (Suc n) = 2 * reverse_bits x n + b"
proof (induction n arbitrary: x)
  case 0
  then show ?case by simp
next
  case (Suc n)
  have x2: "x div 2 < 2 ^ n" using Suc.prems(1) by simp
  have e: "x + b * 2 ^ Suc n = x + 2 * (b * 2 ^ n)" by simp
  have m: "(x + b * 2 ^ Suc n) mod 2 = x mod 2" unfolding e by simp
  have d: "(x + b * 2 ^ Suc n) div 2 = x div 2 + b * 2 ^ n" unfolding e by simp
  have "reverse_bits (x + b * 2 ^ Suc n) (Suc (Suc n))
      = (x mod 2) * 2 ^ Suc n + reverse_bits (x div 2 + b * 2 ^ n) (Suc n)"
    by (simp only: reverse_bits.simps m d)
  also have "reverse_bits (x div 2 + b * 2 ^ n) (Suc n) = 2 * reverse_bits (x div 2) n + b"
    using x2 Suc.prems(2) by (rule Suc.IH)
  finally show ?case by simp
qed

lemma reverse_bits_involution: "i < 2 ^ n \<Longrightarrow> reverse_bits (reverse_bits i n) n = i"
proof (induction n arbitrary: i)
  case 0
  then show ?case by simp
next
  case (Suc n)
  have i2: "i div 2 < 2 ^ n" using Suc.prems by simp
  have "reverse_bits (reverse_bits i (Suc n)) (Suc n)
      = reverse_bits (reverse_bits (i div 2) n + (i mod 2) * 2 ^ n) (Suc n)"
    by (simp add: add.commute)
  also have "\<dots> = 2 * reverse_bits (reverse_bits (i div 2) n) n + i mod 2"
    by (rule reverse_bits_top) (simp_all add: reverse_bits_less)
  also have "\<dots> = 2 * (i div 2) + i mod 2" using i2 by (simp add: Suc.IH)
  finally show ?case by simp
qed



subsection \<open>The halving search\<close>

lemma find_bit_step:
  "c_sub mx ir = Inr d \<Longrightarrow>
   find_bit b mx ir = (if drop_bit 1 b > d then find_bit (drop_bit 1 b) mx ir else Some (Inr (drop_bit 1 b)))"
  by (subst find_bit.simps) (simp add: Let_def)

lemma find_bit_search:
  "j + 1 < 2 ^ n \<Longrightarrow> n \<le> 31 \<Longrightarrow> mx - ir = 2 ^ n - 1 - int (reverse_bits j n) \<Longrightarrow>
   \<exists>k<n. find_bit (2 ^ n) mx ir = Some (Inr (2 ^ k)) \<and>
          take_bit k (reverse_bits j n) + 2 ^ k = reverse_bits (j + 1) n"
proof (induction n arbitrary: j)
  case 0
  then show ?case by simp
next
  case (Suc n)
  let ?r = "reverse_bits (j div 2) n"
  have r: "?r < 2 ^ n" by (rule reverse_bits_less)
  have "int ?r < int (2 ^ n)" using r by (simp only: of_nat_less_iff)
  then have ri: "int ?r < 2 ^ n" by simp
  have p: "(2::int) ^ Suc n \<le> 2 ^ 31" using Suc.prems(2) by (intro power_increasing) simp_all
  have "int (reverse_bits j (Suc n)) < int (2 ^ Suc n)"
    using reverse_bits_less [of j "Suc n"] by (simp only: of_nat_less_iff)
  then have q: "int (reverse_bits j (Suc n)) < 2 ^ Suc n" by (simp del: reverse_bits.simps)
  have "INT_MIN \<le> mx - ir" "mx - ir \<le> INT_MAX"
    unfolding Suc.prems(3) INT_MIN_def INT_MAX_def using p q by linarith+
  then have sub: "c_sub mx ir = Inr (mx - ir)" by (rule c_sub_Inr)
  have half: "drop_bit 1 ((2::int) ^ Suc n) = 2 ^ n" by (simp add: drop_bit_eq_div)
  note step = find_bit_step [OF sub, of "2 ^ Suc n", unfolded half]
  show ?case
  proof (cases "even j")
    case True
    then have rb: "reverse_bits j (Suc n) = ?r" by simp
    have "(j + 1) mod 2 = 1" "(j + 1) div 2 = j div 2" using True by presburger+
    then have rb': "reverse_bits (j + 1) (Suc n) = 2 ^ n + ?r" by simp
    have "mx - ir = 2 * 2 ^ n - 1 - int ?r" using Suc.prems(3) unfolding rb by simp
    then have "\<not> (2 ^ n > mx - ir)" using ri by linarith
    then have "find_bit (2 ^ Suc n) mx ir = Some (Inr (2 ^ n))" using step by simp
    moreover have "take_bit n (reverse_bits j (Suc n)) + 2 ^ n = reverse_bits (j + 1) (Suc n)"
      unfolding rb rb' using r by (simp add: take_bit_nat_eq_self)
    ultimately show ?thesis by blast
  next
    case False
    then have rb: "reverse_bits j (Suc n) = 2 ^ n + ?r" by (simp add: odd_iff_mod_2_eq_one)
    have j1: "(j + 1) mod 2 = 0" "(j + 1) div 2 = j div 2 + 1" using False by presburger+
    then have rb': "reverse_bits (j + 1) (Suc n) = reverse_bits (j div 2 + 1) n" by simp
    have lt: "j div 2 + 1 < 2 ^ n" using Suc.prems(1) j1 by simp
    have d: "mx - ir = 2 ^ n - 1 - int ?r" using Suc.prems(3) unfolding rb by simp
    from Suc.IH [OF lt _ d] Suc.prems(2)
    obtain k where k: "k < n" "find_bit (2 ^ n) mx ir = Some (Inr (2 ^ k))"
      "take_bit k ?r + 2 ^ k = reverse_bits (j div 2 + 1) n" by auto
    have "2 ^ n > mx - ir" using d by linarith
    then have "find_bit (2 ^ Suc n) mx ir = Some (Inr (2 ^ k))" using step k(2) by simp
    moreover have "(2::nat) ^ n = 2 ^ k * 2 ^ (n - k)"
      using k(1) by (simp add: power_add [symmetric])
    then have "take_bit k (2 ^ n + ?r) = take_bit k ?r"
      by (simp only: take_bit_eq_mod mod_mult_self4)
    ultimately have "find_bit (2 ^ Suc n) mx ir = Some (Inr (2 ^ k)) \<and>
        take_bit k (reverse_bits j (Suc n)) + 2 ^ k = reverse_bits (j + 1) (Suc n)"
      unfolding rb rb' using k(3) by simp
    moreover have "k < Suc n" using k(1) by simp
    ultimately show ?thesis by blast
  qed
qed



subsection \<open>Which samples have been exchanged\<close>

lemma reverse_bits_zero: "reverse_bits 0 n = 0"
  by (induction n) simp_all

lemma moved_zero: "\<not> moved n 0 i"
proof
  assume m: "moved n 0 i"
  then have i: "i < 2 ^ n" "reverse_bits i n \<noteq> i" "i = 0 \<or> reverse_bits i n = 0"
    by (auto simp add: moved_def min_def split: if_splits)
  from i(3) show False
  proof
    assume "i = 0" with i(2) show False by (simp add: reverse_bits_zero)
  next
    assume "reverse_bits i n = 0"
    then have "reverse_bits (reverse_bits i n) n = 0" by (simp add: reverse_bits_zero)
    with i(1) have "i = 0" by (simp add: reverse_bits_involution)
    with i(2) show False by (simp add: reverse_bits_zero)
  qed
qed

lemma moved_step:
  assumes j: "j < 2 ^ n"
  shows "moved n j i \<longleftrightarrow>
         moved n (j - 1) i \<or> (1 \<le> j \<and> reverse_bits j n \<noteq> j \<and> (i = j \<or> i = reverse_bits j n))"
proof (cases "i < 2 ^ n")
  case False
  have "reverse_bits j n < 2 ^ n" by (rule reverse_bits_less)
  with False j show ?thesis by (auto simp add: moved_def)
next
  case True
  then have inv: "reverse_bits (reverse_bits i n) n = i" by (rule reverse_bits_involution)
  have invj: "reverse_bits (reverse_bits j n) n = j" using j by (rule reverse_bits_involution)
  show ?thesis
  proof (cases "j = 0")
    case True
    then show ?thesis by simp
  next
    case False
    show ?thesis
    proof
      assume m: "moved n j i"
      show "moved n (j - 1) i \<or> (1 \<le> j \<and> reverse_bits j n \<noteq> j \<and> (i = j \<or> i = reverse_bits j n))"
      proof (cases "min i (reverse_bits i n) \<le> j - 1")
        case True
        with m show ?thesis by (simp add: moved_def)
      next
        case False
        with m have "min i (reverse_bits i n) = j" unfolding moved_def by linarith
        then have "i = j \<or> reverse_bits i n = j" by (auto simp add: min_def split: if_splits)
        then have "i = j \<or> i = reverse_bits j n" using inv by auto
        moreover have "reverse_bits j n \<noteq> j" using m calculation inv by (auto simp add: moved_def)
        ultimately show ?thesis using \<open>j \<noteq> 0\<close> by simp
      qed
    next
      assume "moved n (j - 1) i \<or> (1 \<le> j \<and> reverse_bits j n \<noteq> j \<and> (i = j \<or> i = reverse_bits j n))"
      then show "moved n j i"
      proof
        assume "moved n (j - 1) i" then show ?thesis unfolding moved_def by linarith
      next
        assume a: "1 \<le> j \<and> reverse_bits j n \<noteq> j \<and> (i = j \<or> i = reverse_bits j n)"
        then show ?thesis using True invj by (auto simp add: moved_def)
      qed
    qed
  qed
qed

subsection \<open>The exchange of two samples\<close>

lemma swap_samples_Inr:
  assumes "in_bounds d i" "in_bounds d r"
  shows "swap_samples d i r =
         Inr (d[2 * nat i := d ! (2 * nat r), 2 * nat i + 1 := d ! (2 * nat r + 1),
                2 * nat r := d ! (2 * nat i), 2 * nat r + 1 := d ! (2 * nat i + 1)])"
  using assms
  by (simp add: swap_samples_def load32_def store32_def in_bounds_def low16_pack32 high16_pack32)

lemma swapped_nth:
  assumes "i \<noteq> r" "p < length d"
  shows "d[2 * i := d ! (2 * r), 2 * i + 1 := d ! (2 * r + 1),
           2 * r := d ! (2 * i), 2 * r + 1 := d ! (2 * i + 1)] ! p =
         d ! (if p div 2 = i then 2 * r + p mod 2 else if p div 2 = r then 2 * i + p mod 2 else p)"
proof -
  have "p = 2 * i \<or> p = 2 * i + 1 \<or> p = 2 * r \<or> p = 2 * r + 1 \<or> (p div 2 \<noteq> i \<and> p div 2 \<noteq> r)"
    by presburger
  then consider "p = 2 * i" | "p = 2 * i + 1" | "p = 2 * r" | "p = 2 * r + 1"
    | "p div 2 \<noteq> i" "p div 2 \<noteq> r" by blast
  then show ?thesis
  proof cases
    case 1 with assms show ?thesis by (simp add: nth_list_update; presburger)
  next
    case 2 with assms show ?thesis by (simp add: nth_list_update; presburger)
  next
    case 3 with assms show ?thesis by (simp add: nth_list_update; presburger)
  next
    case 4 with assms show ?thesis by (simp add: nth_list_update)
  next
    case 5
    then have "p \<noteq> 2 * i" "p \<noteq> 2 * i + 1" "p \<noteq> 2 * r" "p \<noteq> 2 * r + 1" by presburger+
    with 5 assms show ?thesis by (simp add: nth_list_update)
  qed
qed

subsection \<open>One pass through the loop body\<close>

lemma source_lane_keep:
  assumes j: "Suc k < 2 ^ n" and le: "reverse_bits (Suc k) n \<le> Suc k"
  shows "source_lane n (Suc k) p = source_lane n k p"
proof -
  let ?j = "Suc k" and ?r = "reverse_bits (Suc k) n"
  have r: "?r < 2 ^ n" by (rule reverse_bits_less)
  have invj: "reverse_bits ?r n = ?j" using j by (rule reverse_bits_involution)
  have "moved n ?j i \<longleftrightarrow> moved n k i" for i
  proof (cases "?r = ?j")
    case True
    then show ?thesis using moved_step [OF j, of i] by simp
  next
    case False
    with le have lt: "?r \<le> k" by simp
    have "moved n k ?j" using j False lt by (simp add: moved_def min_def)
    moreover have "moved n k ?r" using r invj False lt by (simp add: moved_def min_def)
    ultimately show ?thesis using moved_step [OF j, of i] by auto
  qed
  then show ?thesis by (simp add: source_lane_def)
qed

lemma source_lane_swap:
  assumes j: "Suc k < 2 ^ n" and gt: "Suc k < reverse_bits (Suc k) n"
  shows "source_lane n (Suc k) p =
         source_lane n k
           (if p div 2 = Suc k then 2 * reverse_bits (Suc k) n + p mod 2
            else if p div 2 = reverse_bits (Suc k) n then 2 * Suc k + p mod 2 else p)"
proof -
  let ?j = "Suc k" and ?r = "reverse_bits (Suc k) n"
  have r: "?r < 2 ^ n" by (rule reverse_bits_less)
  have invj: "reverse_bits ?r n = ?j" using j by (rule reverse_bits_involution)
  have nj: "\<not> moved n k ?j" using gt by (simp add: moved_def min_def)
  have nr: "\<not> moved n k ?r" using gt invj by (simp add: moved_def min_def)
  have mj: "moved n ?j ?j" using gt j by (simp add: moved_def min_def)
  have mr: "moved n ?j ?r" using gt r invj by (simp add: moved_def min_def)
  have other: "moved n ?j i \<longleftrightarrow> moved n k i" if "i \<noteq> ?j" "i \<noteq> ?r" for i
    using moved_step [OF j, of i] that by simp
  have dm: "(2 * a + p mod 2) div 2 = a" "(2 * a + p mod 2) mod 2 = p mod 2" for a :: nat
    by presburger+
  consider "p div 2 = ?j" | "p div 2 = ?r" "p div 2 \<noteq> ?j" | "p div 2 \<noteq> ?j" "p div 2 \<noteq> ?r"
    by blast
  then show ?thesis
  proof cases
    case 1
    then show ?thesis using mj nr by (simp add: source_lane_def dm del: reverse_bits.simps)
  next
    case 2
    then show ?thesis using mr nj invj by (simp add: source_lane_def dm del: reverse_bits.simps)
  next
    case 3
    then show ?thesis using other [of "p div 2"] by (simp add: source_lane_def del: reverse_bits.simps)
  qed
qed

lemma loop_body_inv:
  assumes n: "n \<le> 30" and len: "len = 2 ^ n" and mx: "mx = 2 ^ n - 1"
    and buf: "2 * 2 ^ n \<le> length d0"
    and inv: "loop_inv n d0 k s" and le: "index s \<le> mx"
  shows "\<exists>b s'. find_bit len mx (index_reversed s) = Some (Inr b) \<and>
           (index_reversed s AND (b - 1)) + b = int (reverse_bits (Suc k) n) \<and>
           loop_body len mx s = Some (Inr s') \<and> loop_inv n d0 (Suc k) s' \<and>
           (reverse_bits (Suc k) n \<le> Suc k \<longrightarrow> complex_data s' = complex_data s)"
proof -
  let ?j = "Suc k" and ?r = "reverse_bits (Suc k) n"
  from inv have idx: "index s = int k + 1" and ir: "index_reversed s = int (reverse_bits k n)"
    and ln: "length (complex_data s) = length d0"
    and dat: "\<And>p. p < length d0 \<Longrightarrow> complex_data s ! p = d0 ! source_lane n k p"
    by (simp_all add: loop_inv_def)
  have "(2::int) ^ n \<le> 2 ^ 30" using n by (intro power_increasing) simp_all
  then have p30: "(2::int) ^ n \<le> 1073741824" by simp
  have lim: "INT_MIN \<le> 0" "1073741824 < INT_MAX" by (simp_all add: INT_MIN_def INT_MAX_def)
  have "int k + 1 < int (2 ^ n)" using le idx mx by simp
  then have j: "?j < 2 ^ n" by linarith
  have r: "?r < 2 ^ n" by (rule reverse_bits_less)
  have "int ?r < int (2 ^ n)" using r by (simp only: of_nat_less_iff)
  then have ri: "int ?r < 2 ^ n" by simp
  have "int ?j < int (2 ^ n)" using j by (simp only: of_nat_less_iff)
  then have ji: "int k + 1 < 2 ^ n" by simp
  have d: "mx - index_reversed s = 2 ^ n - 1 - int (reverse_bits k n)" by (simp add: mx ir)
  from find_bit_search [of k n mx "index_reversed s"] j n d
  obtain e where e: "e < n" "find_bit (2 ^ n) mx (index_reversed s) = Some (Inr (2 ^ e))"
    "take_bit e (reverse_bits k n) + 2 ^ e = ?r" by auto
  have pe: "(2::int) ^ e \<le> 2 ^ n" using e(1) by (intro power_increasing) simp_all
  have pe0: "(0::int) < 2 ^ e" by simp
  have sub: "c_sub (2 ^ e) 1 = Inr (2 ^ e - 1)"
    by (rule c_sub_Inr) (use pe p30 pe0 lim in linarith)+
  have "int (reverse_bits k n) AND (2 ^ e - 1) = take_bit e (int (reverse_bits k n))"
    by (simp add: take_bit_eq_mask mask_eq_exp_minus_1)
  also have "\<dots> = int (take_bit e (reverse_bits k n))" by (simp add: take_bit_of_nat)
  finally have a: "index_reversed s AND (2 ^ e - 1) = int (take_bit e (reverse_bits k n))"
    by (simp add: ir)
  have "int (take_bit e (reverse_bits k n)) + 2 ^ e = int (take_bit e (reverse_bits k n) + 2 ^ e)"
    by simp
  then have upd: "(index_reversed s AND (2 ^ e - 1)) + 2 ^ e = int ?r"
    unfolding a e(3) by simp
  have add: "c_add (index_reversed s AND (2 ^ e - 1)) (2 ^ e) = Inr (int ?r)"
  proof -
    have "INT_MIN \<le> int ?r" "int ?r \<le> INT_MAX" using ri p30 lim by linarith+
    then show ?thesis unfolding upd [symmetric] by (rule c_add_Inr)
  qed
  have inc: "c_add (index s) 1 = Inr (int k + 2)"
  proof -
    have "INT_MIN \<le> index s + 1" "index s + 1 \<le> INT_MAX"
      unfolding idx using ji p30 lim by linarith+
    then have "c_add (index s) 1 = Inr (index s + 1)" by (rule c_add_Inr)
    then show ?thesis by (simp add: idx)
  qed
  show ?thesis
  proof (cases "?r \<le> ?j")
    case True
    let ?s' = "\<lparr>index = int k + 2, index_reversed = int ?r, complex_data = complex_data s\<rparr>"
    have body: "loop_body len mx s = Some (Inr ?s')"
      using True by (simp add: loop_body_def len e(2) sub add inc [unfolded idx] idx del: reverse_bits.simps)
    have "loop_inv n d0 ?j ?s'"
      using ln dat source_lane_keep [OF j True]
      by (simp add: loop_inv_def del: reverse_bits.simps)
    with body e(2) upd show ?thesis unfolding len by (intro exI [of _ "2 ^ e"] exI [of _ ?s']) simp
  next
    case False
    then have gt: "?j < ?r" by simp
    let ?d = "complex_data s"
    let ?d' = "?d[2 * ?j := ?d ! (2 * ?r), 2 * ?j + 1 := ?d ! (2 * ?r + 1),
                2 * ?r := ?d ! (2 * ?j), 2 * ?r + 1 := ?d ! (2 * ?j + 1)]"
    let ?s' = "\<lparr>index = int k + 2, index_reversed = int ?r, complex_data = ?d'\<rparr>"
    have bj: "in_bounds ?d (index s)" using j buf ln by (simp add: in_bounds_def idx nat_add_distrib)
    have br: "in_bounds ?d (int ?r)" using r buf ln by (simp add: in_bounds_def del: reverse_bits.simps)
    have nj: "nat (index s) = ?j" by (simp add: idx nat_add_distrib)
    have sw: "swap_samples ?d (index s) (int ?r) = Inr ?d'"
      using swap_samples_Inr [OF bj br] by (simp only: nj nat_int)
    have body: "loop_body len mx s = Some (Inr ?s')"
      using False sw by (simp add: loop_body_def len e(2) sub add inc [unfolded idx] idx del: reverse_bits.simps)
    have "?d' ! p = d0 ! source_lane n ?j p" if p: "p < length d0" for p
    proof -
      let ?q = "if p div 2 = ?j then 2 * ?r + p mod 2
                else if p div 2 = ?r then 2 * ?j + p mod 2 else p"
      have "p mod 2 < 2" by simp
      then have q: "?q < length d0" using p j r buf by (auto simp del: reverse_bits.simps)
      have "?d' ! p = ?d ! ?q" using gt p ln by (intro swapped_nth) simp_all
      also have "\<dots> = d0 ! source_lane n k ?q" using q by (rule dat)
      also have "source_lane n k ?q = source_lane n ?j p" using source_lane_swap [OF j gt, of p] by simp
      finally show ?thesis .
    qed
    then have "loop_inv n d0 ?j ?s'" using ln by (simp add: loop_inv_def del: reverse_bits.simps)
    with body e(2) upd False show ?thesis
      unfolding len by (intro exI [of _ "2 ^ e"] exI [of _ ?s']) simp
  qed
qed

subsection \<open>The whole loop\<close>

lemma shl_one_Inr: "0 \<le> stages \<Longrightarrow> stages \<le> 30 \<Longrightarrow> shl_one stages = Inr (2 ^ nat stages)"
proof -
  assume a: "0 \<le> stages" "stages \<le> 30"
  then have "nat stages \<le> 30" by simp
  then have "(2::int) ^ nat stages \<le> 2 ^ 30" by (intro power_increasing) simp_all
  then have "(2::int) ^ nat stages < 2 ^ 31" by simp
  moreover have "- (2 ^ 31) \<le> (2::int) ^ nat stages" by (rule order_trans [of _ 0]) simp_all
  ultimately have "signed_take_bit 31 ((2::int) ^ nat stages) = 2 ^ nat stages"
    by (simp only: signed_take_bit_int_eq_self)
  then show ?thesis using a by (simp add: shl_one_def push_bit_eq_mult)
qed

lemma entry_inv: "loop_inv n d 0 (entry_state d)"
  by (simp add: loop_inv_def entry_state_def reverse_bits_zero source_lane_def moved_zero)

lemma for_loop_exit: "\<not> index s \<le> mx \<Longrightarrow> for_loop len mx s = Some (Inr s)"
  by (subst for_loop.simps) simp

lemma for_loop_pass:
  "index s \<le> mx \<Longrightarrow> loop_body len mx s = Some (Inr s') \<Longrightarrow> for_loop len mx s = for_loop len mx s'"
  by (subst for_loop.simps) simp

lemma for_loop_inv:
  assumes n: "n \<le> 30" and len: "len = 2 ^ n" and mx: "mx = 2 ^ n - 1"
    and buf: "2 * 2 ^ n \<le> length d0"
  shows "loop_inv n d0 k s \<Longrightarrow> k < 2 ^ n \<Longrightarrow>
         \<exists>s'. for_loop len mx s = Some (Inr s') \<and> loop_inv n d0 (2 ^ n - 1) s'"
proof (induction m \<equiv> "2 ^ n - 1 - k" arbitrary: k s)
  case 0
  then have k: "k = 2 ^ n - 1" by simp
  have "int k + 1 = int (Suc k)" by simp
  also have "Suc k = 2 ^ n" using k by simp
  finally have "index s = 2 ^ n" using 0(2) by (simp add: loop_inv_def)
  then have "for_loop len mx s = Some (Inr s)" by (intro for_loop_exit) (simp add: mx)
  with 0(2) k show ?case by simp
next
  case (Suc m)
  then have k: "Suc k < 2 ^ n" by simp
  then have "int (Suc k) < int (2 ^ n)" by (simp only: of_nat_less_iff)
  then have le: "index s \<le> mx" using Suc.prems(1) by (simp add: loop_inv_def mx)
  from loop_body_inv [OF n len mx buf Suc.prems(1) le]
  obtain s1 where s1: "loop_body len mx s = Some (Inr s1)" "loop_inv n d0 (Suc k) s1" by blast
  have "m = 2 ^ n - 1 - Suc k" using Suc.hyps(2) by simp
  from Suc.hyps(1) [OF this s1(2) k]
  show ?case by (simp add: for_loop_pass [OF le s1(1)])
qed

lemma iterates_inv_from:
  assumes n: "n \<le> 30" and len: "len = 2 ^ n" and mx: "mx = 2 ^ n - 1"
    and buf: "2 * 2 ^ n \<le> length d0"
  shows "iterates len mx s s' \<Longrightarrow> k < 2 ^ n \<Longrightarrow> loop_inv n d0 k s \<Longrightarrow>
         \<exists>k'<2 ^ n. loop_inv n d0 k' s'"
proof (induction arbitrary: k rule: iterates.induct)
  case (start s)
  then show ?case by blast
next
  case (pass s s' s'')
  have "int (Suc k) \<le> 2 ^ n - 1" using pass.hyps(1) pass.prems(2) by (simp add: loop_inv_def mx)
  then have "int (Suc k) < int (2 ^ n)" by simp
  then have sk: "Suc k < 2 ^ n" by (simp only: of_nat_less_iff)
  from loop_body_inv [OF n len mx buf pass.prems(2) pass.hyps(1)] pass.hyps(2)
  have "loop_inv n d0 (Suc k) s'" by auto
  with sk show ?case by (rule pass.IH)
qed

lemma iterates_inv:
  assumes n: "n \<le> 30" and len: "len = 2 ^ n" and mx: "mx = 2 ^ n - 1"
    and buf: "2 * 2 ^ n \<le> length d0"
  shows "iterates len mx (entry_state d0) s \<Longrightarrow> \<exists>k<2 ^ n. loop_inv n d0 k s"
  using iterates_inv_from [OF n len mx buf, of "entry_state d0" s 0] entry_inv [of n d0]
  by simp



lemma source_lane_final:
  "source_lane n (2 ^ n - 1) p =
     (if p div 2 < 2 ^ n then 2 * reverse_bits (p div 2) n + p mod 2 else p)"
proof (cases "p div 2 < 2 ^ n")
  case False
  then show ?thesis by (simp add: source_lane_def moved_def)
next
  case True
  show ?thesis
  proof (cases "reverse_bits (p div 2) n = p div 2")
    case e: True
    then have "\<not> moved n (2 ^ n - 1) (p div 2)" by (simp add: moved_def)
    moreover have "2 * (p div 2) + p mod 2 = p" by simp
    ultimately show ?thesis using True e by (simp add: source_lane_def)
  next
    case False
    have "min (p div 2) (reverse_bits (p div 2) n) \<le> 2 ^ n - 1" using True by linarith
    with True False have "moved n (2 ^ n - 1) (p div 2)" unfolding moved_def by blast
    with True show ?thesis by (simp add: source_lane_def)
  qed
qed

lemma routine_lanes:
  assumes st: "0 \<le> stages" "stages \<le> 30" and buf: "2 * 2 ^ nat stages \<le> length d"
  shows "\<exists>d'. WebRtcSpl_ComplexBitReverse d stages = Some (Inr d') \<and> length d' = length d \<and>
           (\<forall>p<length d. d' ! p =
              d ! (if p div 2 < 2 ^ nat stages
                   then 2 * reverse_bits (p div 2) (nat stages) + p mod 2 else p))"
proof -
  let ?n = "nat stages"
  have n: "?n \<le> 30" using st by simp
  have "(2::int) ^ ?n \<le> 2 ^ 30" using n by (intro power_increasing) simp_all
  then have p30: "(2::int) ^ ?n \<le> 1073741824" by simp
  have p0: "(0::int) < 2 ^ ?n" by simp
  have lim: "INT_MIN \<le> 0" "1073741824 < INT_MAX" by (simp_all add: INT_MIN_def INT_MAX_def)
  have shl: "shl_one stages = Inr (2 ^ ?n)" using st by (rule shl_one_Inr)
  have "INT_MIN \<le> 2 ^ ?n - 1" "2 ^ ?n - 1 \<le> INT_MAX" using p30 p0 lim by linarith+
  then have sub: "c_sub (2 ^ ?n) 1 = Inr (2 ^ ?n - 1)" by (rule c_sub_Inr)
  from for_loop_inv [OF n refl refl buf entry_inv]
  obtain s' where s': "for_loop (2 ^ ?n) (2 ^ ?n - 1) (entry_state d) = Some (Inr s')"
    "loop_inv ?n d (2 ^ ?n - 1) s'" by auto
  have "WebRtcSpl_ComplexBitReverse d stages = Some (Inr (complex_data s'))"
    using s'(1) by (simp add: WebRtcSpl_ComplexBitReverse_def shl sub entry_state_def)
  moreover have "length (complex_data s') = length d" using s'(2) by (simp add: loop_inv_def)
  moreover have "\<forall>p<length d. complex_data s' ! p =
              d ! (if p div 2 < 2 ^ ?n then 2 * reverse_bits (p div 2) ?n + p mod 2 else p)"
    using s'(2) unfolding loop_inv_def source_lane_final by blast
  ultimately show ?thesis by blast
qed

text \<open>Outside \<open>0..30\<close> the routine has no defined execution.\<close>

lemma routine_undefined:
  assumes "stages < 0 \<or> 30 < stages"
  shows "\<exists>e. WebRtcSpl_ComplexBitReverse d stages = Some (Inl e)"
proof -
  consider "stages < 0 \<or> 32 \<le> stages" | "stages = 31" using assms by linarith
  then show ?thesis
  proof cases
    case 1
    then have "shl_one stages = Inl ShiftOutOfRange" by (auto simp add: shl_one_def)
    then show ?thesis by (simp add: WebRtcSpl_ComplexBitReverse_def)
  next
    case 2
    then show ?thesis
      by (simp add: WebRtcSpl_ComplexBitReverse_def shl_one_def c_sub_def int_result_def
          INT_MIN_def INT_MAX_def)
  qed
qed

subsection \<open>The result of the routine, by samples\<close>

lemma in_range_lane:
  assumes "i < 2 ^ n" "2 * 2 ^ n \<le> length d"
  shows "2 * i + 1 < length (d::'a list)" "2 * i < length d"
  using assms by linarith+

lemma routine_samples:
  assumes st: "0 \<le> stages" "stages \<le> 30" and buf: "2 * 2 ^ nat stages \<le> length d"
  shows "\<exists>d'. WebRtcSpl_ComplexBitReverse d stages = Some (Inr d') \<and> length d' = length d \<and>
           (\<forall>i<2 ^ nat stages. sample d' i = sample d (reverse_bits i (nat stages)))"
proof -
  let ?n = "nat stages"
  from routine_lanes [OF st buf]
  obtain d' where d': "WebRtcSpl_ComplexBitReverse d stages = Some (Inr d')" "length d' = length d"
    and lanes: "\<And>p. p < length d \<Longrightarrow> d' ! p =
              d ! (if p div 2 < 2 ^ ?n then 2 * reverse_bits (p div 2) ?n + p mod 2 else p)"
    by blast
  have "sample d' i = sample d (reverse_bits i ?n)" if i: "i < 2 ^ ?n" for i
  proof -
    have a: "(2 * i) div 2 = i" "(2 * i) mod 2 = 0" "(2 * i + 1) div 2 = i" "(2 * i + 1) mod 2 = 1"
      by presburger+
    have "d' ! (2 * i) = d ! (2 * reverse_bits i ?n)"
      using lanes [of "2 * i"] in_range_lane(2) [OF i buf] i unfolding a by simp
    moreover have "d' ! (2 * i + 1) = d ! (2 * reverse_bits i ?n + 1)"
      using lanes [of "2 * i + 1"] in_range_lane(1) [OF i buf] i unfolding a by simp
    ultimately show ?thesis by (simp add: sample_def)
  qed
  with d' show ?thesis by blast
qed

lemma load32_sample:
  "2 * i + 1 < length d \<Longrightarrow> load32 d (int i) = Inr (pack32 (fst (sample d i)) (snd (sample d i)))"
  by (simp add: load32_def in_bounds_def sample_def)

lemma final_lane_less:
  assumes "2 * 2 ^ n \<le> m" "p < m"
  shows "(if p div 2 < 2 ^ n then 2 * reverse_bits (p div 2) n + p mod 2 else p) < m"
proof -
  have "reverse_bits (p div 2) n < 2 ^ n" by (rule reverse_bits_less)
  moreover have "p mod 2 < 2" by simp
  ultimately have "2 * reverse_bits (p div 2) n + p mod 2 < 2 * 2 ^ n" by linarith
  with assms show ?thesis by simp
qed

lemma final_lane_involution:
  "(let q = (if p div 2 < 2 ^ n then 2 * reverse_bits (p div 2) n + p mod 2 else p)
    in if q div 2 < 2 ^ n then 2 * reverse_bits (q div 2) n + q mod 2 else q) = p"
proof (cases "p div 2 < 2 ^ n")
  case False
  then show ?thesis by simp
next
  case True
  let ?r = "reverse_bits (p div 2) n"
  have dm: "(2 * ?r + p mod 2) div 2 = ?r" "(2 * ?r + p mod 2) mod 2 = p mod 2" by presburger+
  have r: "?r < 2 ^ n" by (rule reverse_bits_less)
  have "reverse_bits ?r n = p div 2" using True by (rule reverse_bits_involution)
  then show ?thesis using True r by (simp add: Let_def dm)
qed

lemma reverse_bits_image: "(\<lambda>i. reverse_bits i n) ` {0..<2 ^ n} = {0..<2 ^ n}"
proof
  show "(\<lambda>i. reverse_bits i n) ` {0..<2 ^ n} \<subseteq> {0..<2 ^ n}"
    by (auto simp add: reverse_bits_less)
next
  show "{0..<2 ^ n} \<subseteq> (\<lambda>i. reverse_bits i n) ` {0..<2 ^ n}"
  proof
    fix i :: nat assume "i \<in> {0..<2 ^ n}"
    then have i: "i < 2 ^ n" by simp
    then have "i = reverse_bits (reverse_bits i n) n" by (simp add: reverse_bits_involution)
    moreover have "reverse_bits i n \<in> {0..<2 ^ n}" by (simp add: reverse_bits_less)
    ultimately show "i \<in> (\<lambda>i. reverse_bits i n) ` {0..<2 ^ n}" by (rule image_eqI)
  qed
qed

lemma reverse_bits_inj: "inj_on (\<lambda>i. reverse_bits i n) {0..<2 ^ n}"
  by (rule inj_on_inverseI [where g = "\<lambda>i. reverse_bits i n"]) (simp add: reverse_bits_involution)

lemma mset_reversed_indices: "mset (map (\<lambda>i. reverse_bits i n) [0..<2 ^ n]) = mset [0..<2 ^ n]"
proof -
  have "mset (map (\<lambda>i. reverse_bits i n) [0..<2 ^ n]) =
      image_mset (\<lambda>i. reverse_bits i n) (mset_set {0..<2 ^ n})" by simp
  also have "\<dots> = mset_set ((\<lambda>i. reverse_bits i n) ` {0..<2 ^ n})"
    using reverse_bits_inj by (rule image_mset_mset_set)
  also have "\<dots> = mset [0..<2 ^ n]" by (simp add: reverse_bits_image)
  finally show ?thesis .
qed

subsection \<open>Every pass of the loop\<close>


lemma iteration_facts:
  assumes n: "n \<le> 30" and buf: "2 * 2 ^ n \<le> length d"
    and it: "iterates (2 ^ n) (2 ^ n - 1) (entry_state d) s" and le: "index s \<le> 2 ^ n - 1"
  shows "\<exists>k b s'. index s = int (Suc k) \<and> Suc k < 2 ^ n \<and>
           index_reversed s = int (reverse_bits k n) \<and>
           length (complex_data s) = length d \<and>
           find_bit (2 ^ n) (2 ^ n - 1) (index_reversed s) = Some (Inr b) \<and>
           (index_reversed s AND (b - 1)) + b = int (reverse_bits (Suc k) n) \<and>
           loop_body (2 ^ n) (2 ^ n - 1) s = Some (Inr s') \<and>
           index_reversed s' = int (reverse_bits (Suc k) n) \<and>
           (reverse_bits (Suc k) n \<le> Suc k \<longrightarrow> complex_data s' = complex_data s)"
proof -
  from iterates_inv [OF n refl refl buf it]
  obtain k where k: "k < 2 ^ n" "loop_inv n d k s" by blast
  from k(2) have idx: "index s = int (Suc k)" and ir: "index_reversed s = int (reverse_bits k n)"
    and ln: "length (complex_data s) = length d"
    by (simp_all add: loop_inv_def)
  have "int (Suc k) < int (2 ^ n)" using le idx by simp
  then have sk: "Suc k < 2 ^ n" by (simp only: of_nat_less_iff)
  from loop_body_inv [OF n refl refl buf k(2) le]
  obtain b s' where b: "find_bit (2 ^ n) (2 ^ n - 1) (index_reversed s) = Some (Inr b)"
    "(index_reversed s AND (b - 1)) + b = int (reverse_bits (Suc k) n)"
    "loop_body (2 ^ n) (2 ^ n - 1) s = Some (Inr s')" "loop_inv n d (Suc k) s'"
    "reverse_bits (Suc k) n \<le> Suc k \<longrightarrow> complex_data s' = complex_data s" by blast
  from b(4) have "index_reversed s' = int (reverse_bits (Suc k) n)" by (simp add: loop_inv_def)
  with idx sk ir ln b(1,2,3,5) show ?thesis by blast
qed


text \<open>
  A pass that takes the \<open>continue\<close> branch does not touch the buffer: it runs in the same
  way on any buffer whatever, whereas the swap fails on a buffer that does not hold the
  sample.
\<close>

lemma loop_body_skip:
  assumes "loop_body len mx s = Some (Inr s')" and "index_reversed s' \<le> index s"
  shows "loop_body len mx (s\<lparr>complex_data := e\<rparr>) = Some (Inr (s'\<lparr>complex_data := e\<rparr>))"
  using assms
  by (auto simp add: loop_body_def split: option.splits sum.splits if_splits)

lemma swap_samples_outside: "\<not> in_bounds e i \<Longrightarrow> swap_samples e i r = Inl OutOfBounds"
  by (simp add: swap_samples_def load32_def)

section \<open>The claims\<close>

text \<open>
  In the theorems below \<open>d\<close> is the caller's buffer as its 16-bit lanes, so a buffer of
  \<open>2 ^ stages\<close> complex samples has \<open>2 * 2 ^ stages\<close> lanes; a longer buffer is allowed,
  as the specification only asks for at least that many samples.  A result
  \<open>Some (Inr d')\<close> says that the call returns, with no undefined operation, and leaves the
  buffer \<open>d'\<close>.
\<close>

text \<open>
  C1 (as amended).  For every \<open>stages\<close> from 0 to 30 and every buffer of at least
  \<open>2 ^ stages\<close> complex samples the call returns, and afterwards the 32-bit sample read at
  every index \<open>i < 2 ^ stages\<close> is the sample that was at index
  \<open>reverse_bits i stages\<close> before the call; equivalently, the sample that was at \<open>i\<close> is
  read at \<open>reverse_bits i stages\<close> afterwards.
\<close>

theorem permute_places_reversed_index:
  assumes "0 \<le> stages" "stages \<le> 30" and "2 * 2 ^ nat stages \<le> length d"
  shows "\<exists>d'. WebRtcSpl_ComplexBitReverse d stages = Some (Inr d') \<and>
           (\<forall>i<2 ^ nat stages. \<exists>w v.
              load32 d' (int i) = Inr w \<and>
              load32 d (int (reverse_bits i (nat stages))) = Inr w \<and>
              load32 d (int i) = Inr v \<and>
              load32 d' (int (reverse_bits i (nat stages))) = Inr v)"
proof -
  let ?n = "nat stages"
  from routine_samples [OF assms]
  obtain d' where d': "WebRtcSpl_ComplexBitReverse d stages = Some (Inr d')" "length d' = length d"
    and sm: "\<And>i. i < 2 ^ ?n \<Longrightarrow> sample d' i = sample d (reverse_bits i ?n)"
    by blast
  have ld: "load32 d (int i) = Inr (pack32 (fst (sample d i)) (snd (sample d i)))"
    and ld': "load32 d' (int i) = Inr (pack32 (fst (sample d' i)) (snd (sample d' i)))"
    if i: "i < 2 ^ ?n" for i
    using in_range_lane(1) [OF i assms(3)] d'(2) by (simp_all add: load32_sample)
  have "\<exists>w v. load32 d' (int i) = Inr w \<and> load32 d (int (reverse_bits i ?n)) = Inr w \<and>
          load32 d (int i) = Inr v \<and> load32 d' (int (reverse_bits i ?n)) = Inr v"
    if i: "i < 2 ^ ?n" for i
  proof -
    have r: "reverse_bits i ?n < 2 ^ ?n" by (rule reverse_bits_less)
    have rr: "reverse_bits (reverse_bits i ?n) ?n = i" using i by (rule reverse_bits_involution)
    have "load32 d' (int i) = load32 d (int (reverse_bits i ?n))"
      unfolding ld' [OF i] ld [OF r] sm [OF i] ..
    moreover have "load32 d' (int (reverse_bits i ?n)) = load32 d (int i)"
      unfolding ld' [OF r] ld [OF i] sm [OF r] rr ..
    ultimately show ?thesis using ld [OF i] ld [OF r] by simp
  qed
  with d'(1) show ?thesis by blast
qed

theorem permute_places_reversed_index_witness:
  "(0::int) \<le> 2 \<and> (2::int) \<le> 30 \<and> 2 * 2 ^ nat 2 \<le> length [1, 2, 3, 4, 5, 6, 7, 8 :: int16] \<and>
   (\<exists>d' w v. WebRtcSpl_ComplexBitReverse [1, 2, 3, 4, 5, 6, 7, 8] 2 = Some (Inr d') \<and>
      load32 d' 1 = Inr w \<and> load32 [1, 2, 3, 4, 5, 6, 7, 8] 2 = Inr w \<and>
      load32 [1, 2, 3, 4, 5, 6, 7, 8] 1 = Inr v \<and> load32 d' 2 = Inr v)"
proof -
  have r: "reverse_bits (Suc 0) 2 = 2" by code_simp
  have h: "(0::int) \<le> 2" "(2::int) \<le> 30" "2 * 2 ^ nat 2 \<le> length [1, 2, 3, 4, 5, 6, 7, 8 :: int16]"
    by simp_all
  from permute_places_reversed_index [OF h]
  obtain d' where d': "WebRtcSpl_ComplexBitReverse [1, 2, 3, 4, 5, 6, 7, 8] 2 = Some (Inr d')"
    "\<forall>i<2 ^ nat 2. \<exists>w v. load32 d' (int i) = Inr w \<and>
        load32 [1, 2, 3, 4, 5, 6, 7, 8] (int (reverse_bits i (nat 2))) = Inr w \<and>
        load32 [1, 2, 3, 4, 5, 6, 7, 8] (int i) = Inr v \<and>
        load32 d' (int (reverse_bits i (nat 2))) = Inr v" by blast
  have "(1::nat) < 2 ^ nat 2" by simp
  from d'(2) [rule_format, OF this]
  have "\<exists>w v. load32 d' 1 = Inr w \<and> load32 [1, 2, 3, 4, 5, 6, 7, 8] 2 = Inr w \<and>
      load32 [1, 2, 3, 4, 5, 6, 7, 8] 1 = Inr v \<and> load32 d' 2 = Inr v"
    by (simp add: r)
  with d'(1) h show ?thesis by blast
qed

text \<open>
  At \<open>stages = 31\<close> a buffer of \<open>2 ^ 31\<close> samples is a legitimate argument, but
  \<open>length - 1\<close> is not representable in \<open>int\<close>: the call has no defined result.
\<close>

theorem permute_places_reversed_index_counterexample:
  "length (replicate (2 * 2 ^ 31) (0::int16)) = 2 * 2 ^ 31 \<and>
   \<not> (\<exists>d'. WebRtcSpl_ComplexBitReverse (replicate (2 * 2 ^ 31) 0) 31 = Some (Inr d') \<and>
          (\<forall>i<2 ^ 31. \<exists>w v.
             load32 d' (int i) = Inr w \<and>
             load32 (replicate (2 * 2 ^ 31) 0) (int (reverse_bits i 31)) = Inr w \<and>
             load32 (replicate (2 * 2 ^ 31) 0) (int i) = Inr v \<and>
             load32 d' (int (reverse_bits i 31)) = Inr v))"
  by (simp add: WebRtcSpl_ComplexBitReverse_def shl_one_def c_sub_def int_result_def
      INT_MIN_def INT_MAX_def)

text \<open>
  C2 (as amended).  For every \<open>stages\<close> from 0 to 30 and every buffer of at least
  \<open>2 ^ stages\<close> complex samples, two calls in succession both return and the second leaves
  the buffer as it was before the first.
\<close>

theorem permute_twice_restores:
  assumes st: "0 \<le> stages" "stages \<le> 30" and buf: "2 * 2 ^ nat stages \<le> length d"
  shows "\<exists>d'. WebRtcSpl_ComplexBitReverse d stages = Some (Inr d') \<and>
              WebRtcSpl_ComplexBitReverse d' stages = Some (Inr d)"
proof -
  let ?n = "nat stages"
  let ?f = "\<lambda>p. if p div 2 < 2 ^ ?n then 2 * reverse_bits (p div 2) ?n + p mod 2 else p"
  from routine_lanes [OF st buf]
  obtain d1 where d1: "WebRtcSpl_ComplexBitReverse d stages = Some (Inr d1)" "length d1 = length d"
    and l1: "\<And>p. p < length d \<Longrightarrow> d1 ! p = d ! ?f p" by blast
  have buf1: "2 * 2 ^ ?n \<le> length d1" using buf d1(2) by simp
  from routine_lanes [OF st buf1]
  obtain d2 where d2: "WebRtcSpl_ComplexBitReverse d1 stages = Some (Inr d2)" "length d2 = length d1"
    and l2: "\<And>p. p < length d1 \<Longrightarrow> d2 ! p = d1 ! ?f p" by blast
  have "d2 = d"
  proof (rule nth_equalityI)
    show "length d2 = length d" using d1(2) d2(2) by simp
  next
    fix p assume "p < length d2"
    then have p: "p < length d" using d1(2) d2(2) by simp
    have q: "?f p < length d" using buf p by (rule final_lane_less)
    have "d2 ! p = d1 ! ?f p" using p d1(2) by (intro l2) simp
    also have "\<dots> = d ! ?f (?f p)" using q by (rule l1)
    also have "?f (?f p) = p" using final_lane_involution [of p ?n] by (simp add: Let_def)
    finally show "d2 ! p = d ! p" .
  qed
  with d1(1) d2(1) show ?thesis by blast
qed

theorem permute_twice_restores_witness:
  "(0::int) \<le> 2 \<and> (2::int) \<le> 30 \<and> 2 * 2 ^ nat 2 \<le> length [1, 2, 3, 4, 5, 6, 7, 8 :: int16] \<and>
   (\<exists>d'. WebRtcSpl_ComplexBitReverse [1, 2, 3, 4, 5, 6, 7, 8] 2 = Some (Inr d') \<and>
      WebRtcSpl_ComplexBitReverse d' 2 = Some (Inr [1, 2, 3, 4, 5, 6, 7, 8]))"
proof -
  have h: "(0::int) \<le> 2" "(2::int) \<le> 30" "2 * 2 ^ nat 2 \<le> length [1, 2, 3, 4, 5, 6, 7, 8 :: int16]"
    by simp_all
  from permute_twice_restores [OF h] h show ?thesis by blast
qed

text \<open>
  At \<open>stages = 31\<close> the first of the two calls already has no defined result.
\<close>

theorem permute_twice_restores_counterexample:
  "length (replicate (2 * 2 ^ 31) (0::int16)) = 2 * 2 ^ 31 \<and>
   \<not> (\<exists>d'. WebRtcSpl_ComplexBitReverse (replicate (2 * 2 ^ 31) 0) 31 = Some (Inr d') \<and>
          WebRtcSpl_ComplexBitReverse d' 31 = Some (Inr (replicate (2 * 2 ^ 31) 0)))"
  by (simp add: WebRtcSpl_ComplexBitReverse_def shl_one_def c_sub_def int_result_def
      INT_MIN_def INT_MAX_def)

text \<open>
  C3 (as amended).  For every \<open>stages\<close> from 0 to 30 and every buffer of at least
  \<open>2 ^ stages\<close> complex samples the call returns, and the multiset of the complex samples
  in the first \<open>2 ^ stages\<close> positions is the same after the call as before it.
\<close>

theorem permute_keeps_multiset:
  assumes st: "0 \<le> stages" "stages \<le> 30" and buf: "2 * 2 ^ nat stages \<le> length d"
  shows "\<exists>d'. WebRtcSpl_ComplexBitReverse d stages = Some (Inr d') \<and>
           mset (samples d' (2 ^ nat stages)) = mset (samples d (2 ^ nat stages))"
proof -
  let ?n = "nat stages"
  from routine_samples [OF st buf]
  obtain d' where d': "WebRtcSpl_ComplexBitReverse d stages = Some (Inr d')"
    and sm: "\<And>i. i < 2 ^ ?n \<Longrightarrow> sample d' i = sample d (reverse_bits i ?n)" by blast
  have "samples d' (2 ^ ?n) = map (sample d \<circ> (\<lambda>i. reverse_bits i ?n)) [0..<2 ^ ?n]"
    unfolding samples_def by (rule map_cong) (simp_all add: sm)
  also have "\<dots> = map (sample d) (map (\<lambda>i. reverse_bits i ?n) [0..<2 ^ ?n])" by simp
  finally have "mset (samples d' (2 ^ ?n)) =
      image_mset (sample d) (mset (map (\<lambda>i. reverse_bits i ?n) [0..<2 ^ ?n]))"
    by (simp only: mset_map)
  also have "\<dots> = mset (samples d (2 ^ ?n))"
    unfolding mset_reversed_indices by (simp add: samples_def)
  finally show ?thesis using d' by blast
qed

theorem permute_keeps_multiset_witness:
  "(0::int) \<le> 2 \<and> (2::int) \<le> 30 \<and> 2 * 2 ^ nat 2 \<le> length [1, 2, 3, 4, 5, 6, 7, 8 :: int16] \<and>
   (\<exists>d'. WebRtcSpl_ComplexBitReverse [1, 2, 3, 4, 5, 6, 7, 8] 2 = Some (Inr d') \<and>
      mset (samples d' 4) = mset (samples [1, 2, 3, 4, 5, 6, 7, 8] 4))"
proof -
  have h: "(0::int) \<le> 2" "(2::int) \<le> 30" "2 * 2 ^ nat 2 \<le> length [1, 2, 3, 4, 5, 6, 7, 8 :: int16]"
    by simp_all
  from permute_keeps_multiset [OF h]
  have "\<exists>d'. WebRtcSpl_ComplexBitReverse [1, 2, 3, 4, 5, 6, 7, 8] 2 = Some (Inr d') \<and>
      mset (samples d' 4) = mset (samples [1, 2, 3, 4, 5, 6, 7, 8] 4)" by simp
  with h show ?thesis by blast
qed

text \<open>
  At \<open>stages = 31\<close> there is no buffer after the call whose samples could be compared.
\<close>

theorem permute_keeps_multiset_counterexample:
  "length (replicate (2 * 2 ^ 31) (0::int16)) = 2 * 2 ^ 31 \<and>
   \<not> (\<exists>d'. WebRtcSpl_ComplexBitReverse (replicate (2 * 2 ^ 31) 0) 31 = Some (Inr d') \<and>
          mset (samples d' (2 ^ 31)) = mset (samples (replicate (2 * 2 ^ 31) 0) (2 ^ 31)))"
  by (simp add: WebRtcSpl_ComplexBitReverse_def shl_one_def c_sub_def int_result_def
      INT_MIN_def INT_MAX_def)

text \<open>
  C4 (as amended).  For every \<open>stages\<close> from 0 to 30 and every buffer of at least
  \<open>2 ^ stages\<close> complex samples the call returns, the buffer keeps its length, and for
  every index \<open>i < 2 ^ stages\<close> the real lane and the imaginary lane at \<open>i\<close> hold the real
  lane and the imaginary lane that were stored together at \<open>reverse_bits i stages\<close>.
\<close>

theorem permute_moves_pairs_whole:
  assumes st: "0 \<le> stages" "stages \<le> 30" and buf: "2 * 2 ^ nat stages \<le> length d"
  shows "\<exists>d'. WebRtcSpl_ComplexBitReverse d stages = Some (Inr d') \<and> length d' = length d \<and>
           (\<forall>i<2 ^ nat stages.
              d' ! (2 * i) = d ! (2 * reverse_bits i (nat stages)) \<and>
              d' ! (2 * i + 1) = d ! (2 * reverse_bits i (nat stages) + 1))"
proof -
  from routine_samples [OF st buf]
  obtain d' where d': "WebRtcSpl_ComplexBitReverse d stages = Some (Inr d')" "length d' = length d"
    and sm: "\<And>i. i < 2 ^ nat stages \<Longrightarrow> sample d' i = sample d (reverse_bits i (nat stages))"
    by blast
  have "d' ! (2 * i) = d ! (2 * reverse_bits i (nat stages)) \<and>
        d' ! (2 * i + 1) = d ! (2 * reverse_bits i (nat stages) + 1)"
    if "i < 2 ^ nat stages" for i
    using sm [OF that] by (simp add: sample_def)
  with d' show ?thesis by blast
qed

theorem permute_moves_pairs_whole_witness:
  "(0::int) \<le> 2 \<and> (2::int) \<le> 30 \<and> 2 * 2 ^ nat 2 \<le> length [1, 2, 3, 4, 5, 6, 7, 8 :: int16] \<and>
   (\<exists>d'. WebRtcSpl_ComplexBitReverse [1, 2, 3, 4, 5, 6, 7, 8] 2 = Some (Inr d') \<and>
      length d' = 8 \<and> d' ! 2 = 5 \<and> d' ! 3 = 6)"
proof -
  have r: "reverse_bits (Suc 0) 2 = 2" by code_simp
  have h: "(0::int) \<le> 2" "(2::int) \<le> 30" "2 * 2 ^ nat 2 \<le> length [1, 2, 3, 4, 5, 6, 7, 8 :: int16]"
    by simp_all
  from permute_moves_pairs_whole [OF h]
  obtain d' where d': "WebRtcSpl_ComplexBitReverse [1, 2, 3, 4, 5, 6, 7, 8] 2 = Some (Inr d')"
    "length d' = length [1, 2, 3, 4, 5, 6, 7, 8 :: int16]"
    "\<forall>i<2 ^ nat 2. d' ! (2 * i) = [1, 2, 3, 4, 5, 6, 7, 8] ! (2 * reverse_bits i (nat 2)) \<and>
        d' ! (2 * i + 1) = [1, 2, 3, 4, 5, 6, 7, 8] ! (2 * reverse_bits i (nat 2) + 1)" by blast
  have "(1::nat) < 2 ^ nat 2" by simp
  from d'(3) [rule_format, OF this] have "d' ! 2 = 5 \<and> d' ! 3 = 6" by (simp add: r)
  with d'(1,2) h show ?thesis by auto
qed

text \<open>
  At \<open>stages = 31\<close> no pair arrives anywhere: the call has no defined result.
\<close>

theorem permute_moves_pairs_whole_counterexample:
  "length (replicate (2 * 2 ^ 31) (0::int16)) = 2 * 2 ^ 31 \<and>
   \<not> (\<exists>d'. WebRtcSpl_ComplexBitReverse (replicate (2 * 2 ^ 31) 0) 31 = Some (Inr d') \<and>
          length d' = length (replicate (2 * 2 ^ 31) (0::int16)) \<and>
          d' ! (2 * 1) = replicate (2 * 2 ^ 31) 0 ! (2 * reverse_bits 1 31) \<and>
          d' ! (2 * 1 + 1) = replicate (2 * 2 ^ 31) 0 ! (2 * reverse_bits 1 31 + 1))"
  by (simp add: WebRtcSpl_ComplexBitReverse_def shl_one_def c_sub_def int_result_def
      INT_MIN_def INT_MAX_def)




text \<open>
  C6 (as amended).  For every \<open>stages\<close> from 0 to 30, every buffer of at least
  \<open>2 ^ stages\<close> samples and every index \<open>i < 2 ^ stages\<close> with
  \<open>reverse_bits i stages = i\<close>, the call returns with the real and the imaginary lane at
  \<open>i\<close> as they were; the pass of the loop for such an index finds
  \<open>index_reversed = index\<close> and leaves the whole buffer as it is; and that pass makes no
  access to the buffer at all: put on any buffer \<open>e\<close> whatever, the empty one included, it
  completes and leaves \<open>e\<close>, where a swap of the sample with itself would be out of
  bounds.  So no self-swap takes place.
\<close>

theorem permute_fixes_palindromes:
  assumes "0 \<le> stages" "stages \<le> 30" and "2 * 2 ^ nat stages \<le> length d"
    and "i < 2 ^ nat stages" and "reverse_bits i (nat stages) = i"
  shows "(\<exists>d'. WebRtcSpl_ComplexBitReverse d stages = Some (Inr d') \<and>
            d' ! (2 * i) = d ! (2 * i) \<and> d' ! (2 * i + 1) = d ! (2 * i + 1)) \<and>
         (\<forall>s. iterates (2 ^ nat stages) (2 ^ nat stages - 1) (entry_state d) s \<and>
              index s = int i \<longrightarrow>
            (\<exists>s'. loop_body (2 ^ nat stages) (2 ^ nat stages - 1) s = Some (Inr s') \<and>
               index_reversed s' = index s \<and> complex_data s' = complex_data s)) \<and>
         (\<forall>s e. iterates (2 ^ nat stages) (2 ^ nat stages - 1) (entry_state d) s \<and>
              index s = int i \<longrightarrow>
            (\<exists>s'. loop_body (2 ^ nat stages) (2 ^ nat stages - 1) (s\<lparr>complex_data := e\<rparr>) =
                    Some (Inr s') \<and>
               index_reversed s' = index s \<and> complex_data s' = e))"
proof -
  let ?n = "nat stages"
  have n: "?n \<le> 30" using assms(2) by simp
  from routine_samples [OF assms(1-3)]
  obtain d' where d': "WebRtcSpl_ComplexBitReverse d stages = Some (Inr d')"
    and sm: "\<And>i. i < 2 ^ ?n \<Longrightarrow> sample d' i = sample d (reverse_bits i ?n)" by blast
  from sm [OF assms(4)] have "d' ! (2 * i) = d ! (2 * i) \<and> d' ! (2 * i + 1) = d ! (2 * i + 1)"
    unfolding assms(5) by (simp add: sample_def)
  with d' have a: "\<exists>d'. WebRtcSpl_ComplexBitReverse d stages = Some (Inr d') \<and>
            d' ! (2 * i) = d ! (2 * i) \<and> d' ! (2 * i + 1) = d ! (2 * i + 1)" by blast
  have pass_i: "\<exists>s'. loop_body (2 ^ ?n) (2 ^ ?n - 1) s = Some (Inr s') \<and>
               index_reversed s' = index s \<and> complex_data s' = complex_data s"
    if "iterates (2 ^ ?n) (2 ^ ?n - 1) (entry_state d) s \<and> index s = int i" for s
  proof -
    from that have it: "iterates (2 ^ ?n) (2 ^ ?n - 1) (entry_state d) s"
      and idx: "index s = int i" by simp_all
    have "int i < int (2 ^ ?n)" using assms(4) by (simp only: of_nat_less_iff)
    then have le: "index s \<le> 2 ^ ?n - 1" using idx by simp
    from iteration_facts [OF n assms(3) it le]
    obtain k s' where f: "index s = int (Suc k)"
      "loop_body (2 ^ ?n) (2 ^ ?n - 1) s = Some (Inr s')"
      "index_reversed s' = int (reverse_bits (Suc k) ?n)"
      "reverse_bits (Suc k) ?n \<le> Suc k \<longrightarrow> complex_data s' = complex_data s" by blast
    from f(1) idx have "Suc k = i" by simp
    with f(2-4) assms(5) idx show ?thesis by auto
  qed
  have any_buffer: "\<exists>s'. loop_body (2 ^ ?n) (2 ^ ?n - 1) (s\<lparr>complex_data := e\<rparr>) = Some (Inr s') \<and>
               index_reversed s' = index s \<and> complex_data s' = e"
    if "iterates (2 ^ ?n) (2 ^ ?n - 1) (entry_state d) s \<and> index s = int i" for s e
  proof -
    from pass_i [OF that]
    obtain s' where s': "loop_body (2 ^ ?n) (2 ^ ?n - 1) s = Some (Inr s')"
      "index_reversed s' = index s" by blast
    from s'(2) have "index_reversed s' \<le> index s" by simp
    from loop_body_skip [OF s'(1) this, of e] s'(2) show ?thesis by simp
  qed
  from a pass_i any_buffer show ?thesis by blast
qed

theorem permute_fixes_palindromes_witness:
  "(0::int) \<le> 1 \<and> (1::int) \<le> 30 \<and> 2 * 2 ^ nat 1 \<le> length [1, 2, 3, 4 :: int16] \<and>
   (1::nat) < 2 ^ nat 1 \<and> reverse_bits 1 (nat 1) = 1 \<and>
   (\<exists>d'. WebRtcSpl_ComplexBitReverse [1, 2, 3, 4] 1 = Some (Inr d') \<and> d' ! 2 = 3 \<and> d' ! 3 = 4) \<and>
   iterates 2 1 (entry_state [1, 2, 3, 4]) (entry_state [1, 2, 3, 4]) \<and>
   (\<exists>s'. loop_body 2 1 (entry_state [1, 2, 3, 4]) = Some (Inr s') \<and>
      index_reversed s' = 1 \<and> complex_data s' = [1, 2, 3, 4]) \<and>
   (\<exists>s'. loop_body 2 1 (entry_state []) = Some (Inr s') \<and>
      index_reversed s' = 1 \<and> complex_data s' = []) \<and>
   swap_samples [] 1 1 = Inl OutOfBounds"
proof -
  let ?d = "[1, 2, 3, 4 :: int16]"
  have r: "reverse_bits 1 (nat 1) = 1" by code_simp
  have h: "(0::int) \<le> 1" "(1::int) \<le> 30" "2 * 2 ^ nat 1 \<le> length ?d" "(1::nat) < 2 ^ nat 1"
    by simp_all
  have it: "iterates 2 1 (entry_state ?d) (entry_state ?d)" by (rule iterates.start)
  note t = permute_fixes_palindromes [OF h r]
  from t have "\<exists>d'. WebRtcSpl_ComplexBitReverse ?d 1 = Some (Inr d') \<and>
      d' ! (2 * 1) = ?d ! (2 * 1) \<and> d' ! (2 * 1 + 1) = ?d ! (2 * 1 + 1)" by blast
  then have a: "\<exists>d'. WebRtcSpl_ComplexBitReverse ?d 1 = Some (Inr d') \<and> d' ! 2 = 3 \<and> d' ! 3 = 4"
    by simp
  from t have "\<forall>s. iterates (2 ^ nat 1) (2 ^ nat 1 - 1) (entry_state ?d) s \<and> index s = int 1 \<longrightarrow>
      (\<exists>s'. loop_body (2 ^ nat 1) (2 ^ nat 1 - 1) s = Some (Inr s') \<and>
         index_reversed s' = index s \<and> complex_data s' = complex_data s)" by blast
  from this [rule_format, of "entry_state ?d"] it
  have b: "\<exists>s'. loop_body 2 1 (entry_state ?d) = Some (Inr s') \<and>
      index_reversed s' = 1 \<and> complex_data s' = ?d"
    by (simp add: entry_state_def)
  from t have "\<forall>s e. iterates (2 ^ nat 1) (2 ^ nat 1 - 1) (entry_state ?d) s \<and> index s = int 1 \<longrightarrow>
      (\<exists>s'. loop_body (2 ^ nat 1) (2 ^ nat 1 - 1) (s\<lparr>complex_data := e\<rparr>) = Some (Inr s') \<and>
         index_reversed s' = index s \<and> complex_data s' = e)" by blast
  from this [rule_format, of "entry_state ?d" "[]"] it
  have c: "\<exists>s'. loop_body 2 1 (entry_state []) = Some (Inr s') \<and>
      index_reversed s' = 1 \<and> complex_data s' = []"
    by (simp add: entry_state_def)
  have e: "swap_samples [] 1 1 = Inl OutOfBounds"
    by (rule swap_samples_outside) (simp add: in_bounds_def)
  from h r a it b c e show ?thesis by blast
qed

text \<open>
  Index 0 is its own mirror for every \<open>stages\<close>, but at \<open>stages = 31\<close> the call has no
  defined result.
\<close>

theorem permute_fixes_palindromes_counterexample:
  "length (replicate (2 * 2 ^ 31) (0::int16)) = 2 * 2 ^ 31 \<and> reverse_bits 0 31 = 0 \<and>
   \<not> (\<exists>d'. WebRtcSpl_ComplexBitReverse (replicate (2 * 2 ^ 31) 0) 31 = Some (Inr d') \<and>
          d' ! (2 * 0) = replicate (2 * 2 ^ 31) 0 ! (2 * 0) \<and>
          d' ! (2 * 0 + 1) = replicate (2 * 2 ^ 31) 0 ! (2 * 0 + 1))"
  by (simp add: WebRtcSpl_ComplexBitReverse_def shl_one_def c_sub_def int_result_def
      INT_MIN_def INT_MAX_def reverse_bits_zero)

text \<open>
  C7.  With \<open>stages = 0\<close> the routine computes \<open>length = 1\<close> and \<open>max = 0\<close>; the loop
  is left at its first test, so the state in which it was entered is the only one in which
  it ever stands and no pass through the body takes place; the call returns the buffer
  unchanged (whatever its length, a single sample in particular).
\<close>

theorem permute_stages_zero:
  "shl_one 0 = Inr 1 \<and> c_sub 1 1 = Inr 0 \<and>
   for_loop 1 0 (entry_state d) = Some (Inr (entry_state d)) \<and>
   {s. iterates 1 0 (entry_state d) s} = {entry_state d} \<and>
   WebRtcSpl_ComplexBitReverse d 0 = Some (Inr d) \<and>
   WebRtcSpl_ComplexBitReverse [re, im] 0 = Some (Inr [re, im])"
proof -
  have "s = entry_state d" if "iterates 1 0 (entry_state d) s" for s
    using that by (cases rule: iterates.cases) (simp_all add: entry_state_def)
  then have "{s. iterates 1 0 (entry_state d) s} = {entry_state d}"
    by (auto intro: iterates.start)
  then show ?thesis
    by (simp add: WebRtcSpl_ComplexBitReverse_def shl_one_def c_sub_def int_result_def
        INT_MIN_def INT_MAX_def for_loop.simps entry_state_def)
qed

theorem permute_stages_zero_witness:
  "WebRtcSpl_ComplexBitReverse [7, 9] 0 = Some (Inr [7, 9])"
  using permute_stages_zero [of "[7, 9]" 7 9] by simp

text \<open>
  C8.  With \<open>stages = 3\<close> and the eight samples \<open>v0 .. v7\<close>, each a real and an imaginary
  lane, the call returns the samples in the order \<open>v0, v4, v2, v6, v1, v5, v3, v7\<close>; this
  is the table in the comment at the head of the source file.
\<close>

theorem permute_stages_three:
  "WebRtcSpl_ComplexBitReverse
     [re0, im0, re1, im1, re2, im2, re3, im3, re4, im4, re5, im5, re6, im6, re7, im7] 3 =
   Some (Inr [re0, im0, re4, im4, re2, im2, re6, im6, re1, im1, re5, im5, re3, im3, re7, im7]) \<and>
   map (\<lambda>i. reverse_bits i 3) [0, 1, 2, 3, 4, 5, 6, 7] = [0, 4, 2, 6, 1, 5, 3, 7]"
proof -
  have "WebRtcSpl_ComplexBitReverse
     [re0, im0, re1, im1, re2, im2, re3, im3, re4, im4, re5, im5, re6, im6, re7, im7] 3 =
   Some (Inr [re0, im0, re4, im4, re2, im2, re6, im6, re1, im1, re5, im5, re3, im3, re7, im7])"
    by (simp add: WebRtcSpl_ComplexBitReverse_def shl_one_def c_sub_def c_add_def int_result_def
        INT_MIN_def INT_MAX_def entry_state_def for_loop.simps loop_body_def find_bit.simps
        swap_samples_def load32_def store32_def in_bounds_def low16_pack32 high16_pack32
        drop_bit_eq_div)
  moreover have "map (\<lambda>i. reverse_bits i 3) [0, 1, 2, 3, 4, 5, 6, 7] = [0, 4, 2, 6, 1, 5, 3, 7]"
    by code_simp
  ultimately show ?thesis by (rule conjI)
qed

theorem permute_stages_three_witness:
  "WebRtcSpl_ComplexBitReverse [0, 10, 1, 11, 2, 12, 3, 13, 4, 14, 5, 15, 6, 16, 7, 17] 3 =
   Some (Inr [0, 10, 4, 14, 2, 12, 6, 16, 1, 11, 5, 15, 3, 13, 7, 17])"
  using permute_stages_three [of 0 10 1 11 2 12 3 13 4 14 5 15 6 16 7 17] by (rule conjunct1)

text \<open>
  C9 (as amended).  For every \<open>stages\<close> from 0 to 30 and every buffer of at least
  \<open>2 ^ stages\<close> samples the call returns a buffer, with no undefined operation on the
  way; and in every pass of the loop the halving search returns.
\<close>

theorem permute_runs_to_completion:
  assumes "0 \<le> stages" "stages \<le> 30" and "2 * 2 ^ nat stages \<le> length d"
  shows "(\<exists>d'. WebRtcSpl_ComplexBitReverse d stages = Some (Inr d')) \<and>
         (\<forall>s. iterates (2 ^ nat stages) (2 ^ nat stages - 1) (entry_state d) s \<and>
              index s \<le> 2 ^ nat stages - 1 \<longrightarrow>
            (\<exists>b. find_bit (2 ^ nat stages) (2 ^ nat stages - 1) (index_reversed s) =
                   Some (Inr b)))"
proof -
  let ?n = "nat stages"
  have n: "?n \<le> 30" using assms(2) by simp
  from routine_lanes [OF assms]
  have a: "\<exists>d'. WebRtcSpl_ComplexBitReverse d stages = Some (Inr d')" by blast
  have b: "\<exists>b. find_bit (2 ^ ?n) (2 ^ ?n - 1) (index_reversed s) = Some (Inr b)"
    if "iterates (2 ^ ?n) (2 ^ ?n - 1) (entry_state d) s \<and> index s \<le> 2 ^ ?n - 1" for s
  proof -
    from that have it: "iterates (2 ^ ?n) (2 ^ ?n - 1) (entry_state d) s"
      and le: "index s \<le> 2 ^ ?n - 1" by simp_all
    from iteration_facts [OF n assms(3) it le] show ?thesis by blast
  qed
  from a b show ?thesis by blast
qed

theorem permute_runs_to_completion_witness:
  "(0::int) \<le> 2 \<and> (2::int) \<le> 30 \<and> 2 * 2 ^ nat 2 \<le> length [1, 2, 3, 4, 5, 6, 7, 8 :: int16] \<and>
   (\<exists>d'. WebRtcSpl_ComplexBitReverse [1, 2, 3, 4, 5, 6, 7, 8] 2 = Some (Inr d')) \<and>
   iterates 4 3 (entry_state [1, 2, 3, 4, 5, 6, 7, 8]) (entry_state [1, 2, 3, 4, 5, 6, 7, 8]) \<and>
   index (entry_state [1, 2, 3, 4, 5, 6, 7, 8]) \<le> 3 \<and>
   (\<exists>b. find_bit 4 3 0 = Some (Inr b))"
proof -
  let ?d = "[1, 2, 3, 4, 5, 6, 7, 8 :: int16]"
  have h: "(0::int) \<le> 2" "(2::int) \<le> 30" "2 * 2 ^ nat 2 \<le> length ?d" by simp_all
  have it: "iterates 4 3 (entry_state ?d) (entry_state ?d)" by (rule iterates.start)
  have le: "index (entry_state ?d) \<le> 3" by (simp add: entry_state_def)
  note t = permute_runs_to_completion [OF h]
  from t have a: "\<exists>d'. WebRtcSpl_ComplexBitReverse ?d 2 = Some (Inr d')" by blast
  from t have "\<forall>s. iterates (2 ^ nat 2) (2 ^ nat 2 - 1) (entry_state ?d) s \<and>
              index s \<le> 2 ^ nat 2 - 1 \<longrightarrow>
            (\<exists>b. find_bit (2 ^ nat 2) (2 ^ nat 2 - 1) (index_reversed s) = Some (Inr b))"
    by blast
  from this [rule_format, of "entry_state ?d"] it le
  have "\<exists>b. find_bit 4 3 0 = Some (Inr b)" by (simp add: entry_state_def)
  with h a it le show ?thesis by blast
qed

text \<open>
  At \<open>stages = 31\<close> the call stops in the overflow of \<open>length - 1\<close> instead of running to
  completion.
\<close>

theorem permute_runs_to_completion_counterexample:
  "length (replicate (2 * 2 ^ 31) (0::int16)) = 2 * 2 ^ 31 \<and>
   WebRtcSpl_ComplexBitReverse (replicate (2 * 2 ^ 31) 0) 31 = Some (Inl SignedOverflow)"
  by (simp add: WebRtcSpl_ComplexBitReverse_def shl_one_def c_sub_def int_result_def
      INT_MIN_def INT_MAX_def)

text \<open>
  C10 (as amended).  For every \<open>stages\<close> from 0 to 30 and every buffer of at least
  \<open>2 ^ stages\<close> samples: whenever the loop stands at its test, \<open>index_reversed\<close> lies in
  \<open>0 .. 2 ^ stages - 1\<close> and \<open>index\<close> in \<open>1 .. 2 ^ stages\<close>; in every pass through the body
  \<open>index\<close> is at most \<open>2 ^ stages - 1\<close>, and \<open>index\<close> and the new \<open>index_reversed\<close>, the
  only positions read or written, lie inside the buffer; the loop ends with
  \<open>index = 2 ^ stages\<close>, and the call returns without an access out of bounds.
\<close>

theorem permute_accesses_in_bounds:
  assumes "0 \<le> stages" "stages \<le> 30" and "2 * 2 ^ nat stages \<le> length d"
  shows "(\<forall>s. iterates (2 ^ nat stages) (2 ^ nat stages - 1) (entry_state d) s \<longrightarrow>
            1 \<le> index s \<and> index s \<le> 2 ^ nat stages \<and>
            0 \<le> index_reversed s \<and> index_reversed s \<le> 2 ^ nat stages - 1 \<and>
            length (complex_data s) = length d) \<and>
         (\<forall>s. iterates (2 ^ nat stages) (2 ^ nat stages - 1) (entry_state d) s \<and>
              index s \<le> 2 ^ nat stages - 1 \<longrightarrow>
            (\<exists>s'. loop_body (2 ^ nat stages) (2 ^ nat stages - 1) s = Some (Inr s') \<and>
               in_bounds (complex_data s) (index s) \<and>
               in_bounds (complex_data s) (index_reversed s') \<and>
               0 \<le> index_reversed s' \<and> index_reversed s' \<le> 2 ^ nat stages - 1)) \<and>
         (\<exists>s. for_loop (2 ^ nat stages) (2 ^ nat stages - 1) (entry_state d) = Some (Inr s) \<and>
            index s = 2 ^ nat stages) \<and>
         (\<exists>d'. WebRtcSpl_ComplexBitReverse d stages = Some (Inr d'))"
proof -
  let ?n = "nat stages"
  have n: "?n \<le> 30" using assms(2) by simp
  have a: "1 \<le> index s \<and> index s \<le> 2 ^ ?n \<and> 0 \<le> index_reversed s \<and>
      index_reversed s \<le> 2 ^ ?n - 1 \<and> length (complex_data s) = length d"
    if it: "iterates (2 ^ ?n) (2 ^ ?n - 1) (entry_state d) s" for s
  proof -
    from iterates_inv [OF n refl refl assms(3) it]
    obtain k where k: "k < 2 ^ ?n" "loop_inv ?n d k s" by blast
    have "int (Suc k) \<le> int (2 ^ ?n)" using k(1) by (simp only: of_nat_le_iff Suc_le_eq)
    then have i: "int k + 1 \<le> 2 ^ ?n" by simp
    have "int (reverse_bits k ?n) < int (2 ^ ?n)"
      using reverse_bits_less [of k ?n] by (simp only: of_nat_less_iff)
    then have r: "int (reverse_bits k ?n) \<le> 2 ^ ?n - 1" by simp
    from k(2) i r show ?thesis by (simp add: loop_inv_def)
  qed
  have b: "\<exists>s'. loop_body (2 ^ ?n) (2 ^ ?n - 1) s = Some (Inr s') \<and>
               in_bounds (complex_data s) (index s) \<and>
               in_bounds (complex_data s) (index_reversed s') \<and>
               0 \<le> index_reversed s' \<and> index_reversed s' \<le> 2 ^ ?n - 1"
    if "iterates (2 ^ ?n) (2 ^ ?n - 1) (entry_state d) s \<and> index s \<le> 2 ^ ?n - 1" for s
  proof -
    from that have it: "iterates (2 ^ ?n) (2 ^ ?n - 1) (entry_state d) s"
      and le: "index s \<le> 2 ^ ?n - 1" by simp_all
    from iteration_facts [OF n assms(3) it le]
    obtain k s' where f: "index s = int (Suc k)" "Suc k < 2 ^ ?n"
      "length (complex_data s) = length d"
      "loop_body (2 ^ ?n) (2 ^ ?n - 1) s = Some (Inr s')"
      "index_reversed s' = int (reverse_bits (Suc k) ?n)" by blast
    have r: "reverse_bits (Suc k) ?n < 2 ^ ?n" by (rule reverse_bits_less)
    have "int (reverse_bits (Suc k) ?n) < int (2 ^ ?n)" using r by (simp only: of_nat_less_iff)
    then have ri: "int (reverse_bits (Suc k) ?n) \<le> 2 ^ ?n - 1" by simp
    have "in_bounds (complex_data s) (index s)"
      using in_range_lane(1) [OF f(2) assms(3)] f(1,3) by (simp add: in_bounds_def)
    moreover have "in_bounds (complex_data s) (index_reversed s')"
      using in_range_lane(1) [OF r assms(3)] f(3,5)
      by (simp add: in_bounds_def del: reverse_bits.simps)
    moreover have "0 \<le> index_reversed s'" "index_reversed s' \<le> 2 ^ ?n - 1"
      using ri f(5) by (simp_all del: reverse_bits.simps)
    ultimately show ?thesis using f(4) by blast
  qed
  have c: "\<exists>s. for_loop (2 ^ ?n) (2 ^ ?n - 1) (entry_state d) = Some (Inr s) \<and> index s = 2 ^ ?n"
  proof -
    from for_loop_inv [OF n refl refl assms(3) entry_inv]
    obtain s where s: "for_loop (2 ^ ?n) (2 ^ ?n - 1) (entry_state d) = Some (Inr s)"
      "loop_inv ?n d (2 ^ ?n - 1) s" by auto
    have "Suc (2 ^ ?n - 1) = 2 ^ ?n" by simp
    then have "int (2 ^ ?n - 1) + 1 = int (2 ^ ?n)" by linarith
    with s(2) have "index s = 2 ^ ?n" by (simp add: loop_inv_def)
    with s(1) show ?thesis by blast
  qed
  from routine_lanes [OF assms]
  have e: "\<exists>d'. WebRtcSpl_ComplexBitReverse d stages = Some (Inr d')" by blast
  from a b c e show ?thesis by blast
qed

theorem permute_accesses_in_bounds_witness:
  "(0::int) \<le> 2 \<and> (2::int) \<le> 30 \<and> 2 * 2 ^ nat 2 \<le> length [1, 2, 3, 4, 5, 6, 7, 8 :: int16] \<and>
   iterates 4 3 (entry_state [1, 2, 3, 4, 5, 6, 7, 8]) (entry_state [1, 2, 3, 4, 5, 6, 7, 8]) \<and>
   index (entry_state [1, 2, 3, 4, 5, 6, 7, 8]) \<le> 3 \<and>
   (\<exists>s'. loop_body 4 3 (entry_state [1, 2, 3, 4, 5, 6, 7, 8]) = Some (Inr s') \<and>
      in_bounds [1, 2, 3, 4, 5, 6, 7, 8] 1 \<and>
      in_bounds [1, 2, 3, 4, 5, 6, 7, 8] (index_reversed s') \<and>
      0 \<le> index_reversed s' \<and> index_reversed s' \<le> 3) \<and>
   (\<exists>d'. WebRtcSpl_ComplexBitReverse [1, 2, 3, 4, 5, 6, 7, 8] 2 = Some (Inr d'))"
proof -
  let ?d = "[1, 2, 3, 4, 5, 6, 7, 8 :: int16]"
  have h: "(0::int) \<le> 2" "(2::int) \<le> 30" "2 * 2 ^ nat 2 \<le> length ?d" by simp_all
  have it: "iterates 4 3 (entry_state ?d) (entry_state ?d)" by (rule iterates.start)
  have le: "index (entry_state ?d) \<le> 3" by (simp add: entry_state_def)
  note t = permute_accesses_in_bounds [OF h]
  from t have a: "\<exists>d'. WebRtcSpl_ComplexBitReverse ?d 2 = Some (Inr d')" by blast
  from t have "\<forall>s. iterates (2 ^ nat 2) (2 ^ nat 2 - 1) (entry_state ?d) s \<and>
              index s \<le> 2 ^ nat 2 - 1 \<longrightarrow>
            (\<exists>s'. loop_body (2 ^ nat 2) (2 ^ nat 2 - 1) s = Some (Inr s') \<and>
               in_bounds (complex_data s) (index s) \<and>
               in_bounds (complex_data s) (index_reversed s') \<and>
               0 \<le> index_reversed s' \<and> index_reversed s' \<le> 2 ^ nat 2 - 1)"
    by blast
  from this [rule_format, of "entry_state ?d"] it le
  have "\<exists>s'. loop_body 4 3 (entry_state ?d) = Some (Inr s') \<and>
      in_bounds ?d 1 \<and> in_bounds ?d (index_reversed s') \<and>
      0 \<le> index_reversed s' \<and> index_reversed s' \<le> 3"
    by (simp add: entry_state_def)
  with h a it le show ?thesis by blast
qed

text \<open>
  With \<open>stages = 0\<close> the loop is left with \<open>index = 1\<close>, above \<open>2 ^ 0 - 1\<close>; and at
  \<open>stages = 31\<close> the call has no defined execution.
\<close>

theorem permute_accesses_in_bounds_counterexample:
  "for_loop 1 0 (entry_state [0, 0]) =
     Some (Inr \<lparr>index = 1, index_reversed = 0, complex_data = [0, 0]\<rparr>) \<and>
   (2::int) ^ 0 - 1 < 1 \<and>
   WebRtcSpl_ComplexBitReverse [0, 0] 0 = Some (Inr [0, 0]) \<and>
   WebRtcSpl_ComplexBitReverse (replicate (2 * 2 ^ 31) 0) 31 = Some (Inl SignedOverflow)"
  by (simp add: WebRtcSpl_ComplexBitReverse_def shl_one_def c_sub_def int_result_def
      INT_MIN_def INT_MAX_def for_loop.simps entry_state_def)

end
